theory Spec2Isabelle
  imports Complex_Main "HOL-Library.Word" "HOL-Library.Log_Nat"
begin

section \<open>Collaborators of the notebook: NumPy, the global random state, hashlib\<close>

text \<open>
  The notebook \<^verbatim>\<open>RandomNumber.ipynb\<close> computes on NumPy \<^verbatim>\<open>float64\<close> values.
  What a \<^verbatim>\<open>float64\<close> operation returns (rounding, the summation order of
  \<^verbatim>\<open>np.dot\<close> and \<^verbatim>\<open>np.sum\<close>, the libm \<^verbatim>\<open>tanh\<close>) is not fixed by the
  notebook, so the type of floats \<open>'f\<close> and its operations are parameters of the
  model, collected in one record.  The state of the global generator
  \<^verbatim>\<open>np.random\<close> is the type \<open>'r\<close>; every draw takes the state and returns the
  new one.
\<close>

type_synonym byte = "8 word"

datatype error = ValueError | IndexError | OverflowError

record ('f, 'r) numpy =
  np_uniform :: "'r \<Rightarrow> 'f \<times> 'r"
    \<comment> \<open>one draw of \<^verbatim>\<open>np.random.uniform(-1, 1)\<close>\<close>
  np_choice :: "nat \<Rightarrow> nat \<Rightarrow> 'r \<Rightarrow> nat list \<times> 'r"
    \<comment> \<open>\<^verbatim>\<open>np.random.choice(a, size=k, replace=False)\<close> where it does not raise\<close>
  np_float :: "rat \<Rightarrow> 'f"
    \<comment> \<open>the \<^verbatim>\<open>float64\<close> of a literal or of a Python integer\<close>
  np_add :: "'f \<Rightarrow> 'f \<Rightarrow> 'f"
  np_sub :: "'f \<Rightarrow> 'f \<Rightarrow> 'f"
  np_mul :: "'f \<Rightarrow> 'f \<Rightarrow> 'f"
  np_div :: "'f \<Rightarrow> 'f \<Rightarrow> 'f"
  np_mod :: "'f \<Rightarrow> 'f \<Rightarrow> 'f"
    \<comment> \<open>the operator \<^verbatim>\<open>%\<close>\<close>
  np_tanh :: "'f \<Rightarrow> 'f"
  np_dot :: "'f list \<Rightarrow> 'f list \<Rightarrow> 'f"
    \<comment> \<open>the inner product of one matrix row with a vector\<close>
  np_sum :: "'f list \<Rightarrow> 'f"
  py_int :: "'f \<Rightarrow> error + int"
    \<comment> \<open>\<^verbatim>\<open>int(x)\<close>: ValueError on a NaN, OverflowError on an infinity\<close>

type_synonym 'f vec = "'f list"
type_synonym 'f mat = "'f list list"

section \<open>NumPy array operations used by \<^verbatim>\<open>hopfield_prng\<close>\<close>

text \<open>\<^verbatim>\<open>np.random.uniform(-1, 1, n)\<close>: \<open>n\<close> draws in order.\<close>

fun uniform_vec :: "('f, 'r) numpy \<Rightarrow> nat \<Rightarrow> 'r \<Rightarrow> 'f vec \<times> 'r" where
  "uniform_vec np 0 r = ([], r)"
| "uniform_vec np (Suc n) r =
     (let (x, r1) = np_uniform np r; (xs, r2) = uniform_vec np n r1 in (x # xs, r2))"

text \<open>\<^verbatim>\<open>np.random.uniform(-1, 1, (m, n))\<close>: \<open>m\<close> rows of \<open>n\<close> draws, row by row.\<close>

fun uniform_mat :: "('f, 'r) numpy \<Rightarrow> nat \<Rightarrow> nat \<Rightarrow> 'r \<Rightarrow> 'f mat \<times> 'r" where
  "uniform_mat np 0 n r = ([], r)"
| "uniform_mat np (Suc m) n r =
     (let (row, r1) = uniform_vec np n r; (rows, r2) = uniform_mat np m n r1
      in (row # rows, r2))"

text \<open>\<^verbatim>\<open>np.fill_diagonal(T, np.diag(T) * 2)\<close>.\<close>

definition fill_diagonal_doubled :: "('f, 'r) numpy \<Rightarrow> 'f mat \<Rightarrow> 'f mat" where
  "fill_diagonal_doubled np T =
     map (\<lambda>i. (T ! i)[i := np_mul np (T ! i ! i) (np_float np 2)]) [0..<length T]"

text \<open>\<^verbatim>\<open>np.triu(np.ones((N, N)))\<close> and \<^verbatim>\<open>np.tril(np.ones((N, N)), -1)\<close>.\<close>

definition triu_ones :: "('f, 'r) numpy \<Rightarrow> nat \<Rightarrow> 'f mat" where
  "triu_ones np N =
     map (\<lambda>i. map (\<lambda>j. if i \<le> j then np_float np 1 else np_float np 0) [0..<N]) [0..<N]"

definition tril_ones_below :: "('f, 'r) numpy \<Rightarrow> nat \<Rightarrow> 'f mat" where
  "tril_ones_below np N =
     map (\<lambda>i. map (\<lambda>j. if j < i then np_float np 1 else np_float np 0) [0..<N]) [0..<N]"

definition scalar_mul :: "('f, 'r) numpy \<Rightarrow> 'f \<Rightarrow> 'f mat \<Rightarrow> 'f mat" where
  "scalar_mul np c A = map (map (np_mul np c)) A"

definition mat_add :: "('f, 'r) numpy \<Rightarrow> 'f mat \<Rightarrow> 'f mat \<Rightarrow> 'f mat" where
  "mat_add np A B = map2 (map2 (np_add np)) A B"

definition mat_sub :: "('f, 'r) numpy \<Rightarrow> 'f mat \<Rightarrow> 'f mat \<Rightarrow> 'f mat" where
  "mat_sub np A B = map2 (map2 (np_sub np)) A B"

text \<open>\<^verbatim>\<open>np.dot(T, V)\<close> and \<^verbatim>\<open>T @ V\<close> for a matrix and a vector.\<close>

definition matvec :: "('f, 'r) numpy \<Rightarrow> 'f mat \<Rightarrow> 'f vec \<Rightarrow> 'f vec" where
  "matvec np T V = map (\<lambda>row. np_dot np row V) T"

text \<open>
  \<^verbatim>\<open>np.random.choice(a, size=k, replace=False)\<close> raises ValueError when the
  population is empty or smaller than the sample.
\<close>

definition random_choice ::
  "('f, 'r) numpy \<Rightarrow> nat \<Rightarrow> nat \<Rightarrow> 'r \<Rightarrow> error + (nat list \<times> 'r)" where
  "random_choice np a k r =
     (if a = 0 \<or> a < k then Inl ValueError else Inr (np_choice np a k r))"

text \<open>\<^verbatim>\<open>V[idx] = vals\<close>: the writes happen in the order of \<open>idx\<close>.\<close>

definition assign_at :: "'a list \<Rightarrow> nat list \<Rightarrow> 'a list \<Rightarrow> 'a list" where
  "assign_at V idx vals = fold (\<lambda>(i, v) W. W[i := v]) (zip idx vals) V"

section \<open>\<^verbatim>\<open>hopfield_prng\<close>\<close>

text \<open>
  The weight perturbation phase:
  \<^verbatim>\<open>T = T + delta * np.triu(np.ones((N, N))) - delta * np.tril(np.ones((N, N)), -1)\<close>.
\<close>

definition perturb :: "('f, 'r) numpy \<Rightarrow> nat \<Rightarrow> 'f \<Rightarrow> 'f mat \<Rightarrow> 'f mat" where
  "perturb np N delta T =
     mat_sub np (mat_add np T (scalar_mul np delta (triu_ones np N)))
       (scalar_mul np delta (tril_ones_below np N))"

text \<open>
  One pass of the neuron activation loop:
  \<^verbatim>\<open>idx = np.random.choice(N, size=N//2 + 1, replace=False)\<close>,
  \<^verbatim>\<open>U = np.dot(T, V) - I\<close>, \<^verbatim>\<open>V[idx] = np.tanh(b * U[idx])\<close>.
  Indexing \<open>U\<close> outside its range raises IndexError.
\<close>

definition activate ::
  "('f, 'r) numpy \<Rightarrow> nat \<Rightarrow> 'f \<Rightarrow> 'f mat \<Rightarrow> 'f vec \<Rightarrow> 'f vec \<times> 'r \<Rightarrow> error + ('f vec \<times> 'r)" where
  "activate np N b T I s =
     (case s of (V, r) \<Rightarrow>
        (case random_choice np N (N div 2 + 1) r of
           Inl e \<Rightarrow> Inl e
         | Inr (idx, r') \<Rightarrow>
             (let U = map2 (np_sub np) (matvec np T V) I in
              if list_ex (\<lambda>i. length U \<le> i) idx then Inl IndexError
              else Inr (assign_at V idx (map (\<lambda>i. np_tanh np (np_mul np b (U ! i))) idx), r'))))"

text \<open>\<^verbatim>\<open>for _ in range(L)\<close> around it; the counter is \<open>nat L\<close>.\<close>

fun activation ::
  "('f, 'r) numpy \<Rightarrow> nat \<Rightarrow> 'f \<Rightarrow> 'f mat \<Rightarrow> 'f vec \<Rightarrow> nat \<Rightarrow> 'f vec \<times> 'r \<Rightarrow> error + ('f vec \<times> 'r)" where
  "activation np N b T I 0 s = Inr s"
| "activation np N b T I (Suc l) s =
     (case activate np N b T I s of
        Inl e \<Rightarrow> Inl e
      | Inr s' \<Rightarrow> activation np N b T I l s')"

text \<open>
  The extraction:
  \<^verbatim>\<open>scaled = np.sum(np.tanh(T @ V)) / (L * N)\<close>,
  \<^verbatim>\<open>fractional = (1000 * scaled) % 1\<close>.
\<close>

definition extract_sample :: "('f, 'r) numpy \<Rightarrow> 'f mat \<Rightarrow> 'f vec \<Rightarrow> int \<Rightarrow> nat \<Rightarrow> 'f" where
  "extract_sample np T V L N =
     (let scaled = np_div np (np_sum np (map (np_tanh np) (matvec np T V)))
                     (np_float np (of_int (L * int N)))
      in np_mod np (np_mul np (np_float np 1000) scaled) (np_float np 1))"

text \<open>
  The body of \<^verbatim>\<open>for _ in range(num_outputs)\<close>, iterated; the state is the weight
  matrix, the neuron states, the generator state and the outputs so far.
\<close>

fun hopfield_loop ::
  "('f, 'r) numpy \<Rightarrow> nat \<Rightarrow> int \<Rightarrow> 'f \<Rightarrow> 'f \<Rightarrow> 'f vec \<Rightarrow> nat \<Rightarrow>
     'f mat \<times> 'f vec \<times> 'r \<times> 'f list \<Rightarrow> error + ('f mat \<times> 'f vec \<times> 'r \<times> 'f list)" where
  "hopfield_loop np N L b delta I 0 s = Inr s"
| "hopfield_loop np N L b delta I (Suc k) s =
     (case s of (T, V, r, outputs) \<Rightarrow>
        (let T' = perturb np N delta T in
         case activation np N b T' I (nat L) (V, r) of
           Inl e \<Rightarrow> Inl e
         | Inr (V', r') \<Rightarrow>
             hopfield_loop np N L b delta I k (T', V', r', outputs @ [extract_sample np T' V' L N])))"

text \<open>
  The initialisation of \<^verbatim>\<open>hopfield_prng\<close>; a negative \<open>N\<close> is a negative
  dimension, on which \<^verbatim>\<open>np.random.uniform\<close> raises ValueError.
\<close>

definition hopfield_init ::
  "('f, 'r) numpy \<Rightarrow> nat \<Rightarrow> 'r \<Rightarrow> 'f mat \<times> 'f vec \<times> 'r \<times> 'f list" where
  "hopfield_init np N r =
     (let (T0, r1) = uniform_mat np N N r;
          T = fill_diagonal_doubled np T0;
          (V, r2) = uniform_vec np N r1
      in (T, V, r2, []))"

definition hopfield_prng ::
  "('f, 'r) numpy \<Rightarrow> int \<Rightarrow> int \<Rightarrow> int \<Rightarrow> 'f \<Rightarrow> 'f \<Rightarrow> 'r \<Rightarrow> error + ('f list \<times> 'r)" where
  "hopfield_prng np num_outputs N L b delta r =
     (if N < 0 then Inl ValueError
      else
        (let I = replicate (nat N) (np_float np 0) in
         case hopfield_loop np (nat N) L b delta I (nat num_outputs) (hopfield_init np (nat N) r) of
           Inl e \<Rightarrow> Inl e
         | Inr (T, V, r', outputs) \<Rightarrow> Inr (outputs, r')))"

section \<open>\<^verbatim>\<open>hopfield_sha_prng\<close>\<close>

text \<open>\<^verbatim>\<open>k.to_bytes(4, 'big')\<close>: OverflowError on a negative or too large \<open>k\<close>.\<close>

definition to_bytes4 :: "int \<Rightarrow> error + byte list" where
  "to_bytes4 k =
     (if k < 0 \<or> 2 ^ 32 \<le> k then Inl OverflowError
      else Inr [word_of_int (k div 2 ^ 24), word_of_int (k div 2 ^ 16),
                word_of_int (k div 2 ^ 8), word_of_int k])"

text \<open>\<^verbatim>\<open>int.from_bytes(bs, 'big')\<close>.\<close>

definition from_bytes :: "byte list \<Rightarrow> int" where
  "from_bytes bs = foldl (\<lambda>a x. a * 256 + uint x) 0 bs"

text \<open>\<^verbatim>\<open>int(val * 10**9)\<close>.\<close>

definition quantize :: "('f, 'r) numpy \<Rightarrow> 'f \<Rightarrow> error + int" where
  "quantize np val = py_int np (np_mul np val (np_float np (10 ^ 9)))"

text \<open>
  \<^verbatim>\<open>b''.join(int(val * 10**9).to_bytes(4, 'big') for val in raw_sequence)\<close>:
  the first sample that raises ends the call.
\<close>

fun serialize :: "('f, 'r) numpy \<Rightarrow> 'f list \<Rightarrow> error + byte list" where
  "serialize np [] = Inr []"
| "serialize np (val # vals) =
     (case quantize np val of
        Inl e \<Rightarrow> Inl e
      | Inr k \<Rightarrow>
          (case to_bytes4 k of
             Inl e \<Rightarrow> Inl e
           | Inr bs \<Rightarrow>
               (case serialize np vals of
                  Inl e \<Rightarrow> Inl e
                | Inr rest \<Rightarrow> Inr (bs @ rest))))"

text \<open>\<^verbatim>\<open>range(0, n, 4)\<close>.\<close>

definition range4 :: "nat \<Rightarrow> nat list" where
  "range4 n = map (\<lambda>j. 4 * j) [0..<(n + 3) div 4]"

text \<open>The slice \<^verbatim>\<open>xs[:n]\<close>; a negative \<open>n\<close> counts from the end.\<close>

definition slice_to :: "int \<Rightarrow> 'a list \<Rightarrow> 'a list" where
  "slice_to n xs = (if 0 \<le> n then take (nat n) xs else take (nat (int (length xs) + n)) xs)"

text \<open>
  \<^verbatim>\<open>[int.from_bytes(hashed[i:i+4], 'big') / 2**32 for i in range(0, len(hashed), 4)]\<close>.
  The quotient of an integer below \<open>2^32\<close> by \<open>2^32\<close> is a \<^verbatim>\<open>float64\<close> value, so the
  true division is exact and the result is given as the rational it denotes.
\<close>

definition digest_floats :: "byte list \<Rightarrow> rat list" where
  "digest_floats hashed =
     map (\<lambda>i. of_int (from_bytes (take 4 (drop i hashed))) / 2 ^ 32) (range4 (length hashed))"

text \<open>
  \<^verbatim>\<open>hopfield_sha_prng(num_outputs)\<close>; \<open>sha256\<close> is
  \<^verbatim>\<open>lambda m: hashlib.sha256(m).digest()\<close>.  The raw sequence comes from
  \<^verbatim>\<open>hopfield_prng(num_outputs)\<close> with its defaults \<open>N = 100\<close>, \<open>L = 10\<close>,
  \<open>b = 0.1\<close>, \<open>delta = 0.01\<close>.
\<close>

definition hopfield_sha_prng ::
  "('f, 'r) numpy \<Rightarrow> (byte list \<Rightarrow> byte list) \<Rightarrow> int \<Rightarrow> 'r \<Rightarrow> error + (rat list \<times> 'r)" where
  "hopfield_sha_prng np sha256 num_outputs r =
     (case hopfield_prng np num_outputs 100 10 (np_float np (1 / 10)) (np_float np (1 / 100)) r of
        Inl e \<Rightarrow> Inl e
      | Inr (raw_sequence, r') \<Rightarrow>
          (case serialize np raw_sequence of
             Inl e \<Rightarrow> Inl e
           | Inr byte_data \<Rightarrow>
               Inr (slice_to num_outputs (digest_floats (sha256 byte_data)), r')))"

section \<open>Contracts of the collaborators and a concrete instance\<close>

text \<open>
  What \<^verbatim>\<open>np.random.choice(a, size=k, replace=False)\<close> promises for a population
  \<open>a > 0\<close> and a sample size \<open>k \<le> a\<close>: \<open>k\<close> distinct indices below \<open>a\<close>.
\<close>

definition choice_contract :: "('f, 'r) numpy \<Rightarrow> bool" where
  "choice_contract np \<longleftrightarrow>
     (\<forall>a k r. 0 < a \<longrightarrow> k \<le> a \<longrightarrow>
        length (fst (np_choice np a k r)) = k \<and> distinct (fst (np_choice np a k r)) \<and>
        (\<forall>i \<in> set (fst (np_choice np a k r)). i < a))"

text \<open>
  A raw sample fits the serializer when \<^verbatim>\<open>int(val * 10**9)\<close> returns an integer that
  \<^verbatim>\<open>to_bytes(4, 'big')\<close> accepts.
\<close>

definition fits4 :: "('f, 'r) numpy \<Rightarrow> 'f \<Rightarrow> bool" where
  "fits4 np val = (case quantize np val of Inl e \<Rightarrow> False | Inr k \<Rightarrow> 0 \<le> k \<and> k < 2 ^ 32)"

text \<open>The raw sequence that \<^verbatim>\<open>hopfield_sha_prng\<close> gets from \<^verbatim>\<open>hopfield_prng\<close>.\<close>

definition raw_sequence :: "('f, 'r) numpy \<Rightarrow> int \<Rightarrow> 'r \<Rightarrow> 'f list" where
  "raw_sequence np num_outputs r =
     (case hopfield_prng np num_outputs 100 10 (np_float np (1 / 10)) (np_float np (1 / 100)) r of
        Inl e \<Rightarrow> []
      | Inr (raw, r') \<Rightarrow> raw)"

text \<open>
  An instance of the collaborators on which the model runs: exact rational arithmetic in
  place of \<^verbatim>\<open>float64\<close>, a rational sigmoid in place of \<^verbatim>\<open>tanh\<close>, a counter as
  generator state, and a 32-byte function in place of SHA-256.  It is used only to
  instantiate the theorems at concrete inputs.
\<close>

definition ideal_np :: "(rat, nat) numpy" where
  "ideal_np =
     \<lparr> np_uniform = (\<lambda>r. (of_int (int (r mod 19) - 9) / 10, r + 1)),
       np_choice = (\<lambda>a k r. (take k (rotate r [0..<a]), r + 1)),
       np_float = (\<lambda>q. q),
       np_add = (\<lambda>x y. x + y),
       np_sub = (\<lambda>x y. x - y),
       np_mul = (\<lambda>x y. x * y),
       np_div = (\<lambda>x y. x / y),
       np_mod = (\<lambda>x y. x - y * of_int \<lfloor>x / y\<rfloor>),
       np_tanh = (\<lambda>x. x / (1 + \<bar>x\<bar>)),
       np_dot = (\<lambda>xs ys. sum_list (map2 (\<lambda>x y. x * y) xs ys)),
       np_sum = sum_list,
       py_int = (\<lambda>x. Inr (if 0 \<le> x then \<lfloor>x\<rfloor> else - \<lfloor>- x\<rfloor>)) \<rparr>"

definition stub_digest :: "byte list \<Rightarrow> byte list" where
  "stub_digest m = map (\<lambda>i. word_of_nat (length m + 37 * i)) [0..<32]"







text \<open>
  Two generator states stand in the relation \<open>R\<close> of \<open>same_draws\<close> when every draw from
  them returns the same value and leaves states that are related again: \<open>R\<close> relates the
  states of \<^verbatim>\<open>np.random\<close> in two invocations that were seeded alike, whatever else
  differs between the two processes.  Two results are the same up to \<open>R\<close> when they are
  the same error, or the same value with related generator states.
\<close>

definition same_draws :: "('f, 'r) numpy \<Rightarrow> ('r \<Rightarrow> 'r \<Rightarrow> bool) \<Rightarrow> bool" where
  "same_draws np R \<longleftrightarrow>
     (\<forall>r1 r2. R r1 r2 \<longrightarrow>
        fst (np_uniform np r1) = fst (np_uniform np r2)
        \<and> R (snd (np_uniform np r1)) (snd (np_uniform np r2)))
     \<and> (\<forall>a k r1 r2. R r1 r2 \<longrightarrow>
        fst (np_choice np a k r1) = fst (np_choice np a k r2)
        \<and> R (snd (np_choice np a k r1)) (snd (np_choice np a k r2)))"


section \<open>An instance with \<^verbatim>\<open>float64\<close> arithmetic\<close>

text \<open>
  A finite \<^verbatim>\<open>float64\<close> is given by the rational it denotes, and an arithmetic operation
  returns the exact result rounded to 53 significant bits, ties to even.  The exponent
  range is not bounded: overflow, subnormal numbers, infinities and NaN are left out, so
  the instance says what NumPy computes only where none of them occurs.

  \<open>ilog2 q\<close> is the exponent of \<open>q \<noteq> 0\<close>: the \<open>e\<close> with \<open>2^e \<le> |q| < 2^(e+1)\<close>.
\<close>

definition ilog2 :: "rat \<Rightarrow> int" where
  "ilog2 q =
     (if 1 \<le> \<bar>q\<bar> then bitlen \<lfloor>\<bar>q\<bar>\<rfloor> - 1 else - bitlen (\<lceil>1 / \<bar>q\<bar>\<rceil> - 1))"

definition round_half_even :: "rat \<Rightarrow> int" where
  "round_half_even x =
     (let f = \<lfloor>x\<rfloor>; d = x - of_int f
      in if d < 1 / 2 then f else if 1 / 2 < d then f + 1 else if even f then f else f + 1)"

definition binary64 :: "rat \<Rightarrow> rat" where
  "binary64 q =
     (if q = 0 then 0
      else (let e = ilog2 q - 52 in of_int (round_half_even (q / 2 powi e)) * 2 powi e))"

text \<open>\<^verbatim>\<open>int(x)\<close> on a finite float truncates towards zero.\<close>

definition py_trunc :: "rat \<Rightarrow> int" where
  "py_trunc q = (if 0 \<le> q then \<lfloor>q\<rfloor> else - \<lfloor>- q\<rfloor>)"

text \<open>
  The operator \<^verbatim>\<open>%\<close> of Python and NumPy floats for a divisor \<open>y \<noteq> 0\<close>: the C
  \<^verbatim>\<open>fmod\<close>, which is exact and has the sign of \<open>x\<close>, and then, when the remainder is
  not zero and its sign differs from the sign of \<open>y\<close>, the rounded sum \<open>r + y\<close>.
\<close>

definition float_mod :: "rat \<Rightarrow> rat \<Rightarrow> rat" where
  "float_mod x y =
     (let r = x - y * of_int (py_trunc (x / y))
      in if r \<noteq> 0 \<and> ((y < 0) \<noteq> (r < 0)) then binary64 (r + y) else r)"

text \<open>
  Below \<open>2^-55\<close> in magnitude the \<^verbatim>\<open>float64\<close> nearest to \<open>tanh x\<close> is \<open>x\<close> itself; above,
  \<open>x / (1 + |x|)\<close> stands in for \<^verbatim>\<open>tanh\<close> and is not its value.  \<open>float_dot\<close> and
  \<open>float_sum\<close> round every product and every partial sum and accumulate from left to
  right; \<^verbatim>\<open>np.dot\<close> and \<^verbatim>\<open>np.sum\<close> may fuse or regroup these operations (pairwise
  blocks from eight elements on), so their results can differ from these in the last
  bits.  The three functions are stand-ins for running the model; the general theorems do
  not depend on them.
\<close>

definition float_tanh :: "rat \<Rightarrow> rat" where
  "float_tanh x = (if \<bar>x\<bar> < 1 / 2 ^ 55 then x else binary64 (x / (1 + \<bar>x\<bar>)))"

definition float_dot :: "rat list \<Rightarrow> rat list \<Rightarrow> rat" where
  "float_dot xs ys = foldl (\<lambda>acc (x, y). binary64 (acc + binary64 (x * y))) 0 (zip xs ys)"

definition float_sum :: "rat list \<Rightarrow> rat" where
  "float_sum xs = foldl (\<lambda>acc x. binary64 (acc + x)) 0 xs"

text \<open>
  The generator state of the instance is the list of the draws still to come, and an
  exhausted list draws \<open>0\<close>.  Addition, subtraction and multiplication are the rounded
  exact results; a division by zero gives \<open>0\<close> here, where NumPy gives an infinity or a
  NaN, so the instance stands for NumPy only on runs without them.
\<close>

definition binary64_np :: "(rat, rat list) numpy" where
  "binary64_np =
     \<lparr> np_uniform = (\<lambda>r. case r of [] \<Rightarrow> (0, []) | x # xs \<Rightarrow> (x, xs)),
       np_choice = (\<lambda>a k r. (take k [0..<a], r)),
       np_float = binary64,
       np_add = (\<lambda>x y. binary64 (x + y)),
       np_sub = (\<lambda>x y. binary64 (x - y)),
       np_mul = (\<lambda>x y. binary64 (x * y)),
       np_div = (\<lambda>x y. binary64 (x / y)),
       np_mod = float_mod,
       np_tanh = float_tanh,
       np_dot = float_dot,
       np_sum = float_sum,
       py_int = (\<lambda>x. Inr (py_trunc x)) \<rparr>"


text \<open>What the theorems about \<^verbatim>\<open>float64\<close> use of an instance.\<close>

definition float64_semantics :: "(rat, 'r) numpy \<Rightarrow> bool" where
  "float64_semantics np \<longleftrightarrow>
     (\<forall>q. np_float np q = binary64 q) \<and> (\<forall>x y. np_mul np x y = binary64 (x * y)) \<and>
     (\<forall>x y. np_mod np x y = float_mod x y) \<and> (\<forall>x. py_int np x = Inr (py_trunc x))"















section \<open>Bytes and the digest\<close>

lemma from_bytes_snoc: "from_bytes (bs @ [x]) = from_bytes bs * 256 + uint x"
  by (simp add: from_bytes_def)

lemma from_bytes_bounds: "0 \<le> from_bytes bs \<and> from_bytes bs < 256 ^ length bs"
proof (induction bs rule: rev_induct)
  case Nil
  show ?case by (simp add: from_bytes_def)
next
  case (snoc x xs)
  have x: "0 \<le> uint x" "uint x < 256"
    using uint_bounded [of x] by simp_all
  from snoc x show ?case
    by (simp add: from_bytes_snoc) 
qed

lemma from_bytes_chunk: "0 \<le> from_bytes (take 4 bs) \<and> from_bytes (take 4 bs) < 2 ^ 32"
proof -
  have "from_bytes (take 4 bs) < 256 ^ length (take 4 bs)"
    using from_bytes_bounds by blast
  also have "(256::int) ^ length (take 4 bs) \<le> 256 ^ 4"
    by (rule power_increasing) simp_all
  finally show ?thesis using from_bytes_bounds [of "take 4 bs"] by simp
qed

lemma digest_floats_unit:
  assumes "y \<in> set (digest_floats h)"
  shows "0 \<le> y \<and> y < 1"
proof -
  from assms obtain i where y: "y = of_int (from_bytes (take 4 (drop i h))) / 2 ^ 32"
    by (auto simp: digest_floats_def)
  let ?k = "from_bytes (take 4 (drop i h))"
  have k: "0 \<le> ?k" "?k < 2 ^ 32" using from_bytes_chunk [of "drop i h"] by simp_all
  have "(of_int ?k :: rat) < of_int (2 ^ 32)" using k(2) by (simp only: of_int_less_iff)
  then have "(of_int ?k :: rat) < 2 ^ 32" by simp
  then have "(of_int ?k :: rat) / 2 ^ 32 < 1" by simp
  moreover have "0 \<le> (of_int ?k :: rat) / 2 ^ 32" using k(1) by simp
  ultimately show ?thesis using y by simp
qed

lemma set_slice_to: "set (slice_to n xs) \<subseteq> set xs"
  by (auto simp: slice_to_def dest: in_set_takeD)

lemma length_assign_at: "length (assign_at V idx vals) = length V"
proof -
  have "length (fold (\<lambda>(i, v) W. W[i := v]) ps V) = length V" for ps
    by (induction ps arbitrary: V) (auto)
  then show ?thesis by (simp add: assign_at_def)
qed

lemma length_perturb: "length T = N \<Longrightarrow> length (perturb np N delta T) = N"
  by (simp add: perturb_def mat_sub_def mat_add_def scalar_mul_def triu_ones_def tril_ones_below_def)

lemma activate_ok:
  assumes "choice_contract np" "0 < N" "length T = N" "length V = N" "length I = N"
  shows "\<exists>V' r'. activate np N b T I (V, r) = Inr (V', r') \<and> length V' = N"
proof -
  have k: "N div 2 + 1 \<le> N" using assms(2) by simp
  obtain idx r' where c: "np_choice np N (N div 2 + 1) r = (idx, r')" by (cases "np_choice np N (N div 2 + 1) r")
  have "\<forall>i\<in>set idx. i < N"
    using assms(1,2) k c unfolding choice_contract_def by (metis fst_conv)
  then have "\<not> list_ex (\<lambda>i. N \<le> i) idx" by (auto simp: list_ex_iff)
  then show ?thesis using assms k c
    by (simp add: activate_def random_choice_def matvec_def length_assign_at)
qed

lemma activation_ok:
  assumes "choice_contract np" "0 < N" "length T = N" "length I = N"
  shows "length V = N \<Longrightarrow> \<exists>V' r'. activation np N b T I l (V, r) = Inr (V', r') \<and> length V' = N"
proof (induction l arbitrary: V r)
  case 0
  then show ?case by simp
next
  case (Suc l)
  from activate_ok [OF assms(1,2,3) Suc.prems assms(4)]
  obtain V1 r1 where a: "activate np N b T I (V, r) = Inr (V1, r1)" "length V1 = N" by blast
  from Suc.IH [OF a(2)] a(1) show ?case by simp
qed

section \<open>The loop returns and keeps the shapes\<close>

lemma length_uniform_vec: "uniform_vec np n r = (xs, r') \<Longrightarrow> length xs = n"
  by (induction n arbitrary: r xs r') (auto split: prod.splits)

lemma length_uniform_mat: "uniform_mat np m n r = (rows, r') \<Longrightarrow> length rows = m"
  by (induction m arbitrary: r rows r') (auto split: prod.splits)

lemma hopfield_init_lengths:
  "hopfield_init np N r = (T, V, r', outs) \<Longrightarrow> length T = N \<and> length V = N \<and> outs = []"
  by (auto simp: hopfield_init_def fill_diagonal_doubled_def Let_def split: prod.splits
      dest: length_uniform_vec length_uniform_mat)

lemma hopfield_loop_ok:
  assumes "choice_contract np" "0 < N" "length I = N"
  shows "length T = N \<Longrightarrow> length V = N \<Longrightarrow>
    \<exists>T' V' r' new. hopfield_loop np N L b delta I k (T, V, r, outs) = Inr (T', V', r', outs @ new)
       \<and> length new = k \<and> length T' = N \<and> length V' = N"
proof (induction k arbitrary: T V r outs)
  case 0
  then show ?case by simp
next
  case (Suc k)
  let ?T = "perturb np N delta T"
  have T: "length ?T = N" using Suc.prems(1) by (rule length_perturb)
  from activation_ok [OF assms(1,2) T assms(3) Suc.prems(2)]
  obtain V1 r1 where a: "activation np N b ?T I (nat L) (V, r) = Inr (V1, r1)" "length V1 = N"
    by blast
  from Suc.IH [OF T a(2), of r1 "outs @ [extract_sample np ?T V1 L N]"]
  obtain T' V' r' new where
    l: "hopfield_loop np N L b delta I k (?T, V1, r1, outs @ [extract_sample np ?T V1 L N])
          = Inr (T', V', r', (outs @ [extract_sample np ?T V1 L N]) @ new)"
       "length new = k" "length T' = N" "length V' = N"
    by blast
  show ?case
    apply (rule exI [of _ T'], rule exI [of _ V'], rule exI [of _ r'])
    apply (rule exI [of _ "extract_sample np ?T V1 L N # new"])
    using a l by (simp add: Let_def)
qed

lemma hopfield_prng_ok:
  assumes "choice_contract np" "0 < N"
  shows "\<exists>outs r'. hopfield_prng np n N L b delta r = Inr (outs, r') \<and> length outs = nat n"
proof -
  obtain T V r1 outs0 where i: "hopfield_init np (nat N) r = (T, V, r1, outs0)"
    by (cases "hopfield_init np (nat N) r") auto
  from hopfield_init_lengths [OF i] have l: "length T = nat N" "length V = nat N" "outs0 = []"
    by simp_all
  have N: "0 < nat N" using assms(2) by simp
  from hopfield_loop_ok [OF assms(1) N _ l(1,2), of "replicate (nat N) (np_float np 0)" L b delta "nat n" r1 "[]"]
  obtain T' V' r' new where
    "hopfield_loop np (nat N) L b delta (replicate (nat N) (np_float np 0)) (nat n) (T, V, r1, [])
       = Inr (T', V', r', new)" "length new = nat n"
    by auto
  then show ?thesis using assms(2) i l(3) by (simp add: hopfield_prng_def Let_def)
qed

lemma serialize_ok:
  "list_all (fits4 np) vals \<Longrightarrow> \<exists>bs. serialize np vals = Inr bs \<and> length bs = 4 * length vals"
proof (induction vals)
  case Nil
  then show ?case by simp
next
  case (Cons v vs)
  then obtain k where k: "quantize np v = Inr k" "0 \<le> k" "k < 2 ^ 32"
    by (auto simp: fits4_def split: sum.splits)
  from Cons obtain rest where r: "serialize np vs = Inr rest" "length rest = 4 * length vs"
    by auto
  from k r show ?case by (simp add: to_bytes4_def)
qed

lemma sha_prng_result:
  assumes "choice_contract np" "list_all (fits4 np) (raw_sequence np n r)"
  shows "\<exists>raw r' bs. hopfield_prng np n 100 10 (np_float np (1 / 10)) (np_float np (1 / 100)) r = Inr (raw, r')
           \<and> length raw = nat n \<and> serialize np raw = Inr bs \<and> length bs = 4 * nat n
           \<and> hopfield_sha_prng np sha256 n r = Inr (slice_to n (digest_floats (sha256 bs)), r')"
proof -
  from hopfield_prng_ok [OF assms(1), of 100 n 10 "np_float np (1 / 10)" "np_float np (1 / 100)" r]
  obtain raw r' where p: "hopfield_prng np n 100 10 (np_float np (1 / 10)) (np_float np (1 / 100)) r = Inr (raw, r')"
     "length raw = nat n" by auto
  then have "raw_sequence np n r = raw" by (simp add: raw_sequence_def)
  with assms(2) serialize_ok [of np raw] obtain bs where
    s: "serialize np raw = Inr bs" "length bs = 4 * length raw" by auto
  show ?thesis using p s by (simp add: hopfield_sha_prng_def)
qed

lemma choice_contract_ideal: "choice_contract ideal_np"
  by (auto simp: choice_contract_def ideal_np_def dest!: in_set_takeD)

lemma hopfield_loop_outputs:
  "hopfield_loop np N L b delta I k (T, V, r, outs) = Inr (T', V', r', outs') \<Longrightarrow>
     \<exists>new. outs' = outs @ new \<and> length new = k \<and>
       (\<forall>v \<in> set new. \<exists>x. v = np_mod np x (np_float np 1))"
proof (induction k arbitrary: T V r outs)
  case 0
  then show ?case by simp
next
  case (Suc k)
  let ?T = "perturb np N delta T"
  from Suc.prems obtain V1 r1 where
    a: "activation np N b ?T I (nat L) (V, r) = Inr (V1, r1)"
    and l: "hopfield_loop np N L b delta I k (?T, V1, r1, outs @ [extract_sample np ?T V1 L N])
             = Inr (T', V', r', outs')"
    by (auto simp: Let_def split: sum.splits)
  from Suc.IH [OF l] obtain new where
    n: "outs' = (outs @ [extract_sample np ?T V1 L N]) @ new" "length new = k"
       "\<forall>v \<in> set new. \<exists>x. v = np_mod np x (np_float np 1)" by blast
  have e: "\<exists>x. extract_sample np ?T V1 L N = np_mod np x (np_float np 1)"
    by (auto simp: extract_sample_def Let_def)
  show ?case
    by (rule exI [of _ "extract_sample np ?T V1 L N # new"]) (use n e in auto)
qed

lemma hopfield_prng_outputs:
  assumes "hopfield_prng np n N L b delta r = Inr (outs, r')"
  shows "length outs = nat n \<and> (\<forall>v \<in> set outs. \<exists>x. v = np_mod np x (np_float np 1))"
proof -
  obtain T V r1 outs0 where i: "hopfield_init np (nat N) r = (T, V, r1, outs0)"
    by (cases "hopfield_init np (nat N) r") auto
  from hopfield_init_lengths [OF i] have o: "outs0 = []" by simp
  from assms i o obtain T' V' where
    "hopfield_loop np (nat N) L b delta (replicate (nat N) (np_float np 0)) (nat n) (T, V, r1, [])
       = Inr (T', V', r', outs)"
    by (auto simp: hopfield_prng_def Let_def split: if_splits sum.splits)
  from hopfield_loop_outputs [OF this] show ?thesis by auto
qed

lemma fits4_ideal_mod: "fits4 ideal_np (np_mod ideal_np x (np_float ideal_np 1))"
proof -
  let ?v = "x - of_int \<lfloor>x\<rfloor>"
  have v: "0 \<le> ?v" "?v < 1" by linarith+
  have "0 \<le> ?v * 10 ^ 9" using v(1) by simp
  moreover have "?v * 10 ^ 9 < 10 ^ 9" using v(2) by simp
  ultimately have "0 \<le> \<lfloor>?v * 10 ^ 9\<rfloor>" "\<lfloor>?v * 10 ^ 9\<rfloor> < 10 ^ 9"
    by (simp_all add: floor_less_iff)
  then show ?thesis using \<open>0 \<le> ?v * 10 ^ 9\<close>
    by (simp add: fits4_def quantize_def ideal_np_def)
qed

lemma raw_sequence_ideal: "list_all (fits4 ideal_np) (raw_sequence ideal_np n r)"
proof (cases "hopfield_prng ideal_np n 100 10 (np_float ideal_np (1 / 10)) (np_float ideal_np (1 / 100)) r")
  case (Inl e)
  then show ?thesis by (simp add: raw_sequence_def)
next
  case (Inr p)
  obtain outs r' where p: "p = (outs, r')" by (cases p)
  from hopfield_prng_outputs [OF Inr [unfolded p]] fits4_ideal_mod
  have "\<forall>v \<in> set outs. fits4 ideal_np v" by metis
  then show ?thesis using Inr p by (simp add: raw_sequence_def list_all_iff)
qed

lemma length_stub_digest: "length (stub_digest m) = 32"
  by (simp add: stub_digest_def)

lemma length_digest_floats: "length (digest_floats h) = (length h + 3) div 4"
  by (simp add: digest_floats_def range4_def)

lemma digest_floats_quotient:
  assumes "y \<in> set (digest_floats h)"
  shows "\<exists>k. 0 \<le> k \<and> k < 2 ^ 32 \<and> y = of_int k / 2 ^ 32"
proof -
  from assms obtain i where y: "y = of_int (from_bytes (take 4 (drop i h))) / 2 ^ 32"
    by (auto simp: digest_floats_def)
  with from_bytes_chunk [of "drop i h"] show ?thesis by blast
qed

section \<open>The serializer\<close>

lemma uint_byte_of_int: "uint (word_of_int x :: byte) = x mod 256"
  by (simp add: uint_word_of_int)

lemma from_to_bytes4:
  assumes "0 \<le> k" "k < 2 ^ 32"
  shows "from_bytes [word_of_int (k div 2 ^ 24), word_of_int (k div 2 ^ 16),
                     word_of_int (k div 2 ^ 8), word_of_int k :: byte] = k"
proof -
  define a where "a = k div 256"
  define b where "b = a div 256"
  define c where "c = b div 256"
  have a: "k div 2 ^ 8 = a" by (simp add: a_def)
  have b: "k div 2 ^ 16 = b"
    using zdiv_zmult2_eq [of 256 k 256] by (simp add: a_def b_def)
  have c: "k div 2 ^ 24 = c"
    using zdiv_zmult2_eq [of 256 k 65536] zdiv_zmult2_eq [of 256 k 256]
    by (simp add: a_def b_def c_def)
  have "c < 256" using assms(2) unfolding c [symmetric] by simp
  moreover have "0 \<le> c" using assms(1) unfolding c [symmetric] by simp
  ultimately have cm: "c mod 256 = c" by simp
  have "k = a * 256 + k mod 256" by (simp add: a_def)
  moreover have "a = b * 256 + a mod 256" by (simp add: b_def)
  moreover have "b = c * 256 + b mod 256" by (simp add: c_def)
  ultimately have "((c * 256 + b mod 256) * 256 + a mod 256) * 256 + k mod 256 = k" by simp
  then show ?thesis
    unfolding a b c by (simp add: from_bytes_def uint_byte_of_int cm)
qed

lemma serialize_blocks:
  assumes "list_all (fits4 np) vals"
  shows "\<exists>bs. serialize np vals = Inr bs \<and> length bs = 4 * length vals \<and>
     (\<forall>i < length vals. \<exists>k. quantize np (vals ! i) = Inr k \<and>
         take 4 (drop (4 * i) bs) = [word_of_int (k div 2 ^ 24), word_of_int (k div 2 ^ 16),
                                      word_of_int (k div 2 ^ 8), word_of_int k] \<and>
         from_bytes (take 4 (drop (4 * i) bs)) = k)"
  using assms
proof (induction vals)
  case Nil
  then show ?case by simp
next
  case (Cons v vs)
  then obtain k where k: "quantize np v = Inr k" "0 \<le> k" "k < 2 ^ 32"
    by (auto simp: fits4_def split: sum.splits)
  let ?b = "[word_of_int (k div 2 ^ 24), word_of_int (k div 2 ^ 16),
             word_of_int (k div 2 ^ 8), word_of_int k :: byte]"
  from Cons obtain rest where r: "serialize np vs = Inr rest" "length rest = 4 * length vs"
    and blocks: "\<forall>i < length vs. \<exists>k. quantize np (vs ! i) = Inr k \<and>
         take 4 (drop (4 * i) rest) = [word_of_int (k div 2 ^ 24), word_of_int (k div 2 ^ 16),
                                      word_of_int (k div 2 ^ 8), word_of_int k] \<and>
         from_bytes (take 4 (drop (4 * i) rest)) = k"
    by auto
  have s: "serialize np (v # vs) = Inr (?b @ rest)" using k r by (simp add: to_bytes4_def)
  have "\<exists>k. quantize np ((v # vs) ! i) = Inr k \<and>
         take 4 (drop (4 * i) (?b @ rest)) = [word_of_int (k div 2 ^ 24), word_of_int (k div 2 ^ 16),
                                      word_of_int (k div 2 ^ 8), word_of_int k] \<and>
         from_bytes (take 4 (drop (4 * i) (?b @ rest))) = k" if i: "i < length (v # vs)" for i
  proof (cases i)
    case 0
    then show ?thesis using k from_to_bytes4 [OF k(2,3)] by simp
  next
    case (Suc j)
    then have j: "j < length vs" using i by simp
    have "drop (4 * Suc j) (?b @ rest) = drop (4 * j) (drop 4 (?b @ rest))"
      by (simp only: drop_drop mult_Suc_right add.commute)
    then have "drop (4 * Suc j) (?b @ rest) = drop (4 * j) rest" by simp
    then show ?thesis using blocks j Suc by (simp only: nth_Cons_Suc)
  qed
  then show ?case using s r by (intro exI [of _ "?b @ rest"]) simp
qed

section \<open>Configurations that are not checked\<close>

lemma hopfield_loop_no_activation:
  "L \<le> 0 \<Longrightarrow> \<exists>T' V' r' new. hopfield_loop np N L b delta I k (T, V, r, outs) = Inr (T', V', r', outs @ new)
       \<and> length new = k"
proof (induction k arbitrary: T V r outs)
  case 0
  then show ?case by simp
next
  case (Suc k)
  let ?T = "perturb np N delta T"
  from Suc.IH [OF Suc.prems, of ?T V r "outs @ [extract_sample np ?T V L N]"]
  obtain T' V' r' new where
    l: "hopfield_loop np N L b delta I k (?T, V, r, outs @ [extract_sample np ?T V L N])
          = Inr (T', V', r', (outs @ [extract_sample np ?T V L N]) @ new)" "length new = k"
    by blast
  show ?case
    apply (rule exI [of _ T'], rule exI [of _ V'], rule exI [of _ r'])
    apply (rule exI [of _ "extract_sample np ?T V L N # new"])
    using Suc.prems l by (simp add: Let_def)
qed

lemma hopfield_prng_negative_dimension:
  "N < 0 \<Longrightarrow> hopfield_prng np n N L b delta r = Inl ValueError"
  by (simp add: hopfield_prng_def)

lemma hopfield_prng_empty_population:
  assumes "0 < n" "0 < L"
  shows "hopfield_prng np n 0 L b delta r = Inl ValueError"
proof -
  obtain k where k: "nat n = Suc k" using assms(1) by (cases "nat n") auto
  obtain l where l: "nat L = Suc l" using assms(2) by (cases "nat L") auto
  obtain T V r1 outs0 where i: "hopfield_init np 0 r = (T, V, r1, outs0)"
    by (cases "hopfield_init np 0 r") auto
  show ?thesis
    by (simp add: hopfield_prng_def k l i activate_def random_choice_def Let_def)
qed

lemma hopfield_prng_unchecked:
  assumes "0 \<le> N" "n \<le> 0 \<or> L \<le> 0"
  shows "\<exists>outs r'. hopfield_prng np n N L b delta r = Inr (outs, r') \<and> length outs = nat n"
proof -
  obtain T V r1 outs0 where i: "hopfield_init np (nat N) r = (T, V, r1, outs0)"
    by (cases "hopfield_init np (nat N) r") auto
  from hopfield_init_lengths [OF i] have o: "outs0 = []" by simp
  show ?thesis
  proof (cases "n \<le> 0")
    case True
    then show ?thesis using assms(1) i o by (simp add: hopfield_prng_def)
  next
    case False
    with assms(2) have "L \<le> 0" by simp
    from hopfield_loop_no_activation [OF this, of np "nat N" b delta "replicate (nat N) (np_float np 0)" "nat n" T V r1 "[]"]
    show ?thesis using assms(1) i o by (auto simp: hopfield_prng_def)
  qed
qed

section \<open>The activation pass and the perturbation\<close>

lemma assign_at_map: "assign_at V idx (map f idx) = fold (\<lambda>i W. W[i := f i]) idx V"
proof -
  have "fold (\<lambda>(i, v) W. W[i := v]) (zip idx (map f idx)) V = fold (\<lambda>i W. W[i := f i]) idx V"
    by (induction idx arbitrary: V) simp_all
  then show ?thesis by (simp add: assign_at_def)
qed

lemma nth_fold_update:
  "i < length V \<Longrightarrow>
     fold (\<lambda>j W. W[j := f j]) idx V ! i = (if i \<in> set idx then f i else V ! i)"
  by (induction idx arbitrary: V) (auto simp: nth_list_update)

lemma nth_assign_at_map:
  "i < length V \<Longrightarrow> assign_at V idx (map f idx) ! i = (if i \<in> set idx then f i else V ! i)"
  by (simp add: assign_at_map nth_fold_update)

lemma nth_external_input:
  assumes "length T = N" "length I = N" "i < N"
  shows "map2 (np_sub np) (matvec np T V) I ! i = np_sub np (np_dot np (T ! i) V) (I ! i)"
  using assms by (simp add: matvec_def)

lemma nth_map2:
  "i < length xs \<Longrightarrow> i < length ys \<Longrightarrow> map2 f xs ys ! i = f (xs ! i) (ys ! i)"
  by simp

lemma perturb_nth:
  assumes "length T = N" and "\<forall>row \<in> set T. length row = N" and "i < N" and "j < N"
  shows "perturb np N delta T ! i ! j =
     np_sub np (np_add np (T ! i ! j) (np_mul np delta (if i \<le> j then np_float np 1 else np_float np 0)))
       (np_mul np delta (if j < i then np_float np 1 else np_float np 0))"
proof -
  have row: "length (T ! i) = N" using assms(1,2,3) by simp
  show ?thesis using assms row
    by (simp add: perturb_def mat_sub_def mat_add_def scalar_mul_def triu_ones_def
        tril_ones_below_def)
qed

lemma perturb_square:
  assumes "length T = N" and "\<forall>row \<in> set T. length row = N"
  shows "length (perturb np N delta T) = N \<and> (\<forall>row \<in> set (perturb np N delta T). length row = N)"
proof -
  have "length (perturb np N delta T ! i) = N" if "i < N" for i
  proof -
    have "length (T ! i) = N" using assms that by simp
    then show ?thesis using assms(1) that
      by (simp add: perturb_def mat_sub_def mat_add_def scalar_mul_def triu_ones_def
          tril_ones_below_def)
  qed
  moreover have "length (perturb np N delta T) = N" using assms(1) by (rule length_perturb)
  ultimately show ?thesis by (auto simp: in_set_conv_nth)
qed

lemma hopfield_loop_matrix:
  "hopfield_loop np N L b delta I k (T, V, r, outs) = Inr (T', V', r', outs') \<Longrightarrow>
     T' = (perturb np N delta ^^ k) T"
proof (induction k arbitrary: T V r outs)
  case 0
  then show ?case by simp
next
  case (Suc k)
  let ?T = "perturb np N delta T"
  from Suc.prems obtain V1 r1 where
    "hopfield_loop np N L b delta I k (?T, V1, r1, outs @ [extract_sample np ?T V1 L N])
       = Inr (T', V', r', outs')"
    by (auto simp: Let_def split: sum.splits)
  from Suc.IH [OF this] show ?case by (simp add: funpow_swap1)
qed



section \<open>The sample of one pass and negative requests\<close>



text \<open>
  For a negative \<open>num_outputs\<close> the raw sequence is empty and the slice
  \<^verbatim>\<open>[:num_outputs]\<close> drops the last \<open>- num_outputs\<close> of the eight digest values, so
  the call returns \<open>8 + num_outputs\<close> values (none below \<open>-8\<close>) and raises nothing.
\<close>

theorem hopfield_sha_prng_negative:
  assumes "n < 0" and "\<forall>m. length (sha256 m) = 32"
  shows "\<exists>r'. hopfield_sha_prng np sha256 n r = Inr (take (nat (8 + n)) (digest_floats (sha256 [])), r')
          \<and> length (take (nat (8 + n)) (digest_floats (sha256 []))) = nat (8 + n)"
proof -
  from hopfield_prng_unchecked [of 100 n 10 np "np_float np (1 / 10)" "np_float np (1 / 100)" r] assms(1)
  obtain outs r' where
    p: "hopfield_prng np n 100 10 (np_float np (1 / 10)) (np_float np (1 / 100)) r = Inr (outs, r')"
       "length outs = nat n" by auto
  then have "outs = []" using assms(1) by simp
  with p have "hopfield_sha_prng np sha256 n r = Inr (slice_to n (digest_floats (sha256 [])), r')"
    by (simp add: hopfield_sha_prng_def)
  moreover have "length (digest_floats (sha256 [])) = 8"
    using assms(2) by (simp add: length_digest_floats)
  ultimately show ?thesis using assms(1) by (auto simp: slice_to_def)
qed

section \<open>Rounding to \<^verbatim>\<open>float64\<close> and the float modulo\<close>

lemma powi_nonneg_eq: "0 \<le> m \<Longrightarrow> (2::rat) powi m = 2 ^ nat m"
  by (simp add: power_int_def)

lemma ilog2_le:
  assumes "q \<noteq> 0"
  shows "2 powi (ilog2 q) \<le> \<bar>q\<bar>"
proof (cases "1 \<le> \<bar>q\<bar>")
  case True
  let ?f = "\<lfloor>\<bar>q\<bar>\<rfloor>"
  have f: "0 < ?f" using True by simp
  then have l: "1 \<le> bitlen ?f" by (auto simp: bitlen_alt_def)
  have "(2::int) ^ nat (bitlen ?f - 1) \<le> ?f" using bitlen_bounds [OF f] by simp
  then have "(of_int ((2::int) ^ nat (bitlen ?f - 1)) :: rat) \<le> of_int ?f"
    by (simp only: of_int_le_iff)
  also have "\<dots> \<le> \<bar>q\<bar>" by simp
  finally have "(2::rat) ^ nat (bitlen ?f - 1) \<le> \<bar>q\<bar>" by simp
  then show ?thesis using True l by (simp add: ilog2_def powi_nonneg_eq)
next
  case False
  let ?n = "\<lceil>1 / \<bar>q\<bar>\<rceil>"
  have q: "0 < \<bar>q\<bar>" using assms by simp
  have "1 < 1 / \<bar>q\<bar>" using False q by simp
  then have m: "0 < ?n - 1" by (simp add: less_ceiling_iff)
  have "?n - 1 < 2 ^ nat (bitlen (?n - 1))" using bitlen_bounds [OF m] by simp
  then have "?n \<le> 2 ^ nat (bitlen (?n - 1))" by simp
  then have "(of_int ?n :: rat) \<le> of_int (2 ^ nat (bitlen (?n - 1)))"
    by (simp only: of_int_le_iff)
  moreover have "1 / \<bar>q\<bar> \<le> of_int ?n" by (rule le_of_int_ceiling)
  ultimately have "1 / \<bar>q\<bar> \<le> of_int (2 ^ nat (bitlen (?n - 1)))" by (rule order_trans [rotated])
  then have "1 / \<bar>q\<bar> \<le> 2 ^ nat (bitlen (?n - 1))" by simp
  then have "1 \<le> 2 ^ nat (bitlen (?n - 1)) * \<bar>q\<bar>"
    using q by (simp add: divide_le_eq)
  then have "1 / 2 ^ nat (bitlen (?n - 1)) \<le> \<bar>q\<bar>"
    by (simp add: divide_le_eq mult.commute)
  moreover have "(2::rat) powi (- bitlen (?n - 1)) = 1 / 2 ^ nat (bitlen (?n - 1))"
    using bitlen_nonneg [of "?n - 1"] by (simp add: power_int_def field_simps)
  ultimately show ?thesis using False by (simp add: ilog2_def)
qed

lemma round_half_even_nonneg: "0 \<le> x \<Longrightarrow> 0 \<le> round_half_even x"
  by (auto simp: round_half_even_def Let_def)

lemma round_half_even_le:
  assumes "x \<le> of_int M"
  shows "round_half_even x \<le> M"
proof -
  have f: "\<lfloor>x\<rfloor> \<le> M" using assms by (simp add: floor_le_iff)
  show ?thesis
  proof (cases "x - of_int \<lfloor>x\<rfloor> < 1 / 2")
    case True
    then show ?thesis using f by (simp add: round_half_even_def Let_def)
  next
    case False
    then have "of_int \<lfloor>x\<rfloor> < x" by linarith
    then have "of_int \<lfloor>x\<rfloor> < (of_int M :: rat)" using assms by linarith
    then have "\<lfloor>x\<rfloor> < M" by (simp only: of_int_less_iff)
    then show ?thesis by (auto simp: round_half_even_def Let_def)
  qed
qed

lemma binary64_nonneg: "0 \<le> z \<Longrightarrow> 0 \<le> binary64 z"
  by (simp add: binary64_def Let_def round_half_even_nonneg)

lemma binary64_le_pow2:
  assumes "0 < z" and "z \<le> 2 powi m"
  shows "binary64 z \<le> 2 powi m"
proof -
  let ?e = "ilog2 z - 52"
  have "(2::rat) powi (ilog2 z) \<le> 2 powi m"
    using ilog2_le [of z] assms by simp
  then have "ilog2 z \<le> m"
    using power_int_strict_increasing [of m "ilog2 z" "2::rat"] by (cases "ilog2 z \<le> m") auto
  then have me: "0 \<le> m - ?e" by simp
  have pe: "(0::rat) < 2 powi ?e" by simp
  have "z / 2 powi ?e \<le> 2 powi m / 2 powi ?e"
    using assms(2) pe by (simp add: divide_right_mono)
  also have "\<dots> = 2 powi (m - ?e)"
    using power_int_diff [of "2::rat" m ?e] by simp
  also have "\<dots> = of_int (2 ^ nat (m - ?e))"
    using me by (simp add: powi_nonneg_eq)
  finally have "round_half_even (z / 2 powi ?e) \<le> 2 ^ nat (m - ?e)"
    by (rule round_half_even_le)
  then have "(of_int (round_half_even (z / 2 powi ?e)) :: rat) \<le> of_int (2 ^ nat (m - ?e))"
    by (simp only: of_int_le_iff)
  then have "of_int (round_half_even (z / 2 powi ?e)) * 2 powi ?e \<le> (2::rat) ^ nat (m - ?e) * 2 powi ?e"
    using pe by (simp add: mult_right_mono)
  also have "(2::rat) ^ nat (m - ?e) * 2 powi ?e = 2 powi (m - ?e) * 2 powi ?e"
    using me by (simp add: powi_nonneg_eq)
  also have "\<dots> = 2 powi m"
    using power_int_add [of "2::rat" "m - ?e" ?e] by simp
  finally show ?thesis using assms(1) by (simp add: binary64_def Let_def)
qed











lemma py_trunc_range:
  "\<bar>x - of_int (py_trunc x)\<bar> < 1 \<and> (0 \<le> x \<longrightarrow> 0 \<le> x - of_int (py_trunc x))
     \<and> (x \<le> 0 \<longrightarrow> x - of_int (py_trunc x) \<le> 0)"
  unfolding py_trunc_def by (auto; linarith)

lemma float_mod_one_range: "0 \<le> float_mod x 1 \<and> float_mod x 1 \<le> 1"
proof -
  let ?r = "x - of_int (py_trunc x)"
  have r: "\<bar>?r\<bar> < 1" "0 \<le> x \<longrightarrow> 0 \<le> ?r" "x \<le> 0 \<longrightarrow> ?r \<le> 0"
    using py_trunc_range [of x] by blast+
  show ?thesis
  proof (cases "?r < 0")
    case True
    then have z: "0 < ?r + 1" "?r + 1 \<le> 2 powi 0" using r(1) by simp_all
    from binary64_le_pow2 [OF z] binary64_nonneg [of "?r + 1"] z(1) True
    show ?thesis by (simp add: float_mod_def Let_def)
  next
    case False
    then show ?thesis using r(1) by (simp add: float_mod_def Let_def)
  qed
qed

lemma floor_numeral_div: "\<lfloor>(numeral a :: rat) / numeral b\<rfloor> = numeral a div numeral b"
  using floor_divide_of_int_eq [of "numeral a" "numeral b", where ?'a = rat] by simp

lemma floor_neg_numeral_div:
  "\<lfloor>- ((numeral a :: rat) / numeral b)\<rfloor> = - numeral a div numeral b"
  using floor_divide_of_int_eq [of "- numeral a" "numeral b", where ?'a = rat] by simp

lemma powi_numeral: "(2::rat) powi (numeral n) = 2 ^ numeral n"
  by (simp add: power_int_def)

lemma powi_neg_numeral: "(2::rat) powi (- numeral n) = 1 / 2 ^ numeral n"
  by (simp add: power_int_def field_simps)

lemmas binary64_eval = binary64_def ilog2_def round_half_even_def Let_def powi_numeral
  powi_neg_numeral compute_bitlen floor_numeral_div floor_neg_numeral_div ceiling_def

lemma binary64_one: "binary64 1 = 1"
  by (simp add: binary64_eval)

lemma binary64_billion: "binary64 1000000000 = 1000000000"
  by (simp add: binary64_eval)


lemma choice_contract_binary64_np: "choice_contract binary64_np"
  by (auto simp: choice_contract_def binary64_np_def dest!: in_set_takeD)

lemma fits4_float64:
  assumes "float64_semantics np" and "0 \<le> v" and "v \<le> 1"
  shows "fits4 np v"
proof -
  let ?w = "v * 10 ^ 9"
  have q: "quantize np v = Inr (py_trunc (binary64 ?w))"
    using assms(1) by (simp add: quantize_def float64_semantics_def binary64_billion)
  have w: "0 \<le> ?w" "?w \<le> 10 ^ 9" using assms(2,3) by simp_all
  have lo: "0 \<le> binary64 ?w" using w(1) by (rule binary64_nonneg)
  have hi: "binary64 ?w \<le> 2 powi 30"
  proof (cases "?w = 0")
    case True
    then show ?thesis by (simp add: binary64_def)
  next
    case False
    then have "0 < ?w" using w(1) by simp
    moreover have "?w \<le> 2 powi 30" using w(2) by (simp add: power_int_def)
    ultimately show ?thesis by (rule binary64_le_pow2)
  qed
  then have "binary64 ?w \<le> of_int (2 ^ 30)" by (simp add: power_int_def)
  then have "\<lfloor>binary64 ?w\<rfloor> \<le> 2 ^ 30" by (simp add: floor_le_iff del: of_int_power of_int_numeral)
  moreover have "0 \<le> \<lfloor>binary64 ?w\<rfloor>" using lo by simp
  ultimately show ?thesis using lo by (simp add: fits4_def q py_trunc_def)
qed

lemma raw_sequence_float64:
  assumes "float64_semantics np"
  shows "list_all (fits4 np) (raw_sequence np n r)"
proof (cases "hopfield_prng np n 100 10 (np_float np (1 / 10)) (np_float np (1 / 100)) r")
  case (Inl e)
  then show ?thesis by (simp add: raw_sequence_def)
next
  case (Inr p)
  obtain outs r' where p: "p = (outs, r')" by (cases p)
  have "fits4 np v" if "v \<in> set outs" for v
  proof -
    from hopfield_prng_outputs [OF Inr [unfolded p]] that
    obtain x where "v = np_mod np x (np_float np 1)" by blast
    then have "v = float_mod x 1"
      using assms by (simp add: float64_semantics_def binary64_one)
    with float_mod_one_range [of x] show ?thesis
      using fits4_float64 [OF assms] by simp
  qed
  then show ?thesis using Inr p by (simp add: raw_sequence_def list_all_iff)
qed

section \<open>The example run, step by step\<close>


















section \<open>The perturbation under rounding\<close>













section \<open>Runs from generator states with the same draws\<close>







lemma same_draws_eq: "same_draws np (=)"
  by (simp add: same_draws_def)


section \<open>Claims about \<^verbatim>\<open>hopfield_sha_prng\<close>\<close>

text \<open>
  C2: for a non-negative \<open>num_outputs\<close> the call returns \<open>min num_outputs 8\<close> values: the
  first \<open>num_outputs\<close> of the eight quotients read from the 32-byte digest, and the cap
  raises nothing.  The generator is assumed to keep the contract of
  \<^verbatim>\<open>np.random.choice\<close>, the digest to have 32 bytes, and the raw samples of the run
  to fit the serializer.
\<close>

theorem hopfield_sha_prng_capped:
  assumes "0 \<le> n" and "choice_contract np" and "\<forall>m. length (sha256 m) = 32"
    and "list_all (fits4 np) (raw_sequence np n r)"
  shows "\<exists>bs r'. serialize np (raw_sequence np n r) = Inr bs
           \<and> hopfield_sha_prng np sha256 n r = Inr (take (nat n) (digest_floats (sha256 bs)), r')
           \<and> length (digest_floats (sha256 bs)) = 8
           \<and> length (take (nat n) (digest_floats (sha256 bs))) = min (nat n) 8"
proof -
  from sha_prng_result [OF assms(2,4), of sha256]
  obtain raw r' bs where
    p: "hopfield_prng np n 100 10 (np_float np (1 / 10)) (np_float np (1 / 100)) r = Inr (raw, r')"
    and s: "serialize np raw = Inr bs"
    and h: "hopfield_sha_prng np sha256 n r = Inr (slice_to n (digest_floats (sha256 bs)), r')"
    by blast
  from p have raw: "raw_sequence np n r = raw" by (simp add: raw_sequence_def)
  have eight: "length (digest_floats (sha256 bs)) = 8"
    using assms(3) by (simp add: length_digest_floats)
  have "slice_to n (digest_floats (sha256 bs)) = take (nat n) (digest_floats (sha256 bs))"
    using assms(1) by (simp add: slice_to_def)
  with s h raw eight show ?thesis by auto
qed

theorem hopfield_sha_prng_capped_witness:
  "\<exists>ys r'. hopfield_sha_prng ideal_np stub_digest 9 0 = Inr (ys, r') \<and> length ys = 8"
proof -
  have "\<forall>m. length (stub_digest m) = 32" by (simp add: length_stub_digest)
  from hopfield_sha_prng_capped [of 9 ideal_np stub_digest 0, OF _ choice_contract_ideal this raw_sequence_ideal]
  show ?thesis by auto
qed

text \<open>
  C4: every value that \<^verbatim>\<open>hopfield_sha_prng\<close> returns is an integer \<open>k\<close> with
  \<open>0 \<le> k < 2^32\<close> divided by \<open>2^32\<close>, hence at least 0 and below 1.
\<close>

theorem hopfield_sha_prng_unit_interval:
  assumes "hopfield_sha_prng np sha256 n r = Inr (ys, r')"
  shows "\<forall>y \<in> set ys. (\<exists>k. 0 \<le> k \<and> k < 2 ^ 32 \<and> y = of_int k / 2 ^ 32) \<and> 0 \<le> y \<and> y < 1"
proof
  fix y assume y: "y \<in> set ys"
  from assms obtain bs where "ys = slice_to n (digest_floats (sha256 bs))"
    by (auto simp: hopfield_sha_prng_def split: sum.splits)
  with y set_slice_to have "y \<in> set (digest_floats (sha256 bs))" by fastforce
  then show "(\<exists>k. 0 \<le> k \<and> k < 2 ^ 32 \<and> y = of_int k / 2 ^ 32) \<and> 0 \<le> y \<and> y < 1"
    using digest_floats_quotient digest_floats_unit by blast
qed

theorem hopfield_sha_prng_unit_interval_witness:
  "\<exists>ys r'. hopfield_sha_prng ideal_np stub_digest 3 0 = Inr (ys, r') \<and> length ys = 3
     \<and> list_all (\<lambda>y. 0 \<le> y \<and> y < 1) ys"
proof -
  from sha_prng_result [OF choice_contract_ideal raw_sequence_ideal, of 3 0 stub_digest]
  obtain bs r' where
    h: "hopfield_sha_prng ideal_np stub_digest 3 0 = Inr (slice_to 3 (digest_floats (stub_digest bs)), r')"
    by blast
  have l: "length (slice_to 3 (digest_floats (stub_digest bs))) = 3"
    by (simp add: slice_to_def length_digest_floats length_stub_digest)
  from hopfield_sha_prng_unit_interval [OF h] l h show ?thesis
    by (auto simp: list_all_iff)
qed

text \<open>
  C1 (as amended): for \<open>0 \<le> num_outputs \<le> 8\<close> the returned sequence has exactly
  \<open>num_outputs\<close> values; a larger request is truncated to the 8 values of one digest.
\<close>

theorem hopfield_sha_prng_length:
  assumes "0 \<le> n" and "choice_contract np" and "\<forall>m. length (sha256 m) = 32"
    and "list_all (fits4 np) (raw_sequence np n r)"
  shows "\<exists>ys r'. hopfield_sha_prng np sha256 n r = Inr (ys, r')
           \<and> (n \<le> 8 \<longrightarrow> length ys = nat n) \<and> (8 < n \<longrightarrow> length ys = 8)"
proof -
  from sha_prng_result [OF assms(2,4), of sha256]
  obtain r' bs where
    h: "hopfield_sha_prng np sha256 n r = Inr (slice_to n (digest_floats (sha256 bs)), r')"
    by blast
  have "length (slice_to n (digest_floats (sha256 bs))) = min (nat n) 8"
    using assms(1,3) by (simp add: slice_to_def length_digest_floats)
  with h show ?thesis by auto
qed

theorem hopfield_sha_prng_length_witness:
  "\<exists>ys r'. hopfield_sha_prng ideal_np stub_digest 5 0 = Inr (ys, r') \<and> length ys = 5"
proof -
  have "\<forall>m. length (stub_digest m) = 32" by (simp add: length_stub_digest)
  from hopfield_sha_prng_length [of 5 ideal_np stub_digest 0, OF _ choice_contract_ideal this raw_sequence_ideal]
  show ?thesis by auto
qed

theorem hopfield_sha_prng_truncates:
  "\<exists>ys r'. hopfield_sha_prng ideal_np stub_digest 9 0 = Inr (ys, r') \<and> length ys = 8
     \<and> length ys \<noteq> nat 9"
proof -
  from sha_prng_result [OF choice_contract_ideal raw_sequence_ideal, of 9 0 stub_digest]
  obtain bs r' where
    h: "hopfield_sha_prng ideal_np stub_digest 9 0 = Inr (slice_to 9 (digest_floats (stub_digest bs)), r')"
    by blast
  have "length (slice_to 9 (digest_floats (stub_digest bs))) = 8"
    by (simp add: slice_to_def length_digest_floats length_stub_digest)
  with h show ?thesis by auto
qed



text \<open>
  C9 (as amended): \<^verbatim>\<open>hopfield_prng\<close> checks nothing.  It raises NumPy's ValueError for
  \<open>N < 0\<close>, and for \<open>N = 0\<close> when both loops run; for \<open>num_outputs \<le> 0\<close> or \<open>L \<le> 0\<close>
  (with \<open>N \<ge> 0\<close>), and for every \<open>N \<ge> 1\<close>, it returns a batch of
  \<open>max num_outputs 0\<close> samples.
\<close>

theorem hopfield_prng_configuration:
  "(N < 0 \<longrightarrow> hopfield_prng np n N L b delta r = Inl ValueError)
   \<and> (N = 0 \<and> 0 < n \<and> 0 < L \<longrightarrow> hopfield_prng np n N L b delta r = Inl ValueError)
   \<and> (0 \<le> N \<and> (n \<le> 0 \<or> L \<le> 0) \<longrightarrow>
        (\<exists>outs r'. hopfield_prng np n N L b delta r = Inr (outs, r') \<and> length outs = nat n))
   \<and> (choice_contract np \<and> 1 \<le> N \<longrightarrow>
        (\<exists>outs r'. hopfield_prng np n N L b delta r = Inr (outs, r') \<and> length outs = nat n))"
proof (intro conjI impI)
  assume "N < 0"
  then show "hopfield_prng np n N L b delta r = Inl ValueError"
    by (rule hopfield_prng_negative_dimension)
next
  assume "N = 0 \<and> 0 < n \<and> 0 < L"
  then show "hopfield_prng np n N L b delta r = Inl ValueError"
    using hopfield_prng_empty_population [of n L np b delta r] by simp
next
  assume "0 \<le> N \<and> (n \<le> 0 \<or> L \<le> 0)"
  then show "\<exists>outs r'. hopfield_prng np n N L b delta r = Inr (outs, r') \<and> length outs = nat n"
    using hopfield_prng_unchecked [of N n L np b delta r] by blast
next
  assume "choice_contract np \<and> 1 \<le> N"
  then show "\<exists>outs r'. hopfield_prng np n N L b delta r = Inr (outs, r') \<and> length outs = nat n"
    using hopfield_prng_ok [of np N n L b delta r] by simp
qed

theorem hopfield_prng_configuration_witness:
  "hopfield_prng ideal_np 1 (- 1) 10 (1 / 10) (1 / 100) 0 = Inl ValueError
   \<and> hopfield_prng ideal_np 1 0 10 (1 / 10) (1 / 100) 0 = Inl ValueError
   \<and> (\<exists>outs r'. hopfield_prng ideal_np (- 1) 1 0 (1 / 10) (1 / 100) 0 = Inr (outs, r')
         \<and> length outs = 0)
   \<and> (\<exists>outs r'. hopfield_prng ideal_np 3 1 10 (1 / 10) (1 / 100) 0 = Inr (outs, r')
         \<and> length outs = 3)"
  using hopfield_prng_configuration [where N = "- 1" and np = ideal_np and n = 1 and L = 10
      and b = "1 / 10" and delta = "1 / 100" and r = 0]
    hopfield_prng_configuration [where N = 0 and np = ideal_np and n = 1 and L = 10
      and b = "1 / 10" and delta = "1 / 100" and r = 0]
    hopfield_prng_configuration [where N = 1 and np = ideal_np and n = "- 1" and L = 0
      and b = "1 / 10" and delta = "1 / 100" and r = 0]
    hopfield_prng_configuration [where N = 1 and np = ideal_np and n = 3 and L = 10
      and b = "1 / 10" and delta = "1 / 100" and r = 0]
    choice_contract_ideal
  by simp

theorem hopfield_prng_no_configuration_error:
  "hopfield_prng ideal_np (- 1) 1 0 (1 / 10) (1 / 100) 0 = Inr ([], 2)"
  by (simp add: hopfield_prng_def hopfield_init_def fill_diagonal_doubled_def ideal_np_def)

text \<open>
  C10: when every sample of a batch fits the serializer, the serialized bytes are the
  4-byte big-endian encodings of \<^verbatim>\<open>int(val * 10**9)\<close> in sample order, and reading the
  \<open>i\<close>-th block of 4 bytes as a big-endian unsigned integer gives that integer back.
\<close>

theorem serialize_roundtrip:
  assumes "list_all (fits4 np) vals"
  shows "\<exists>bs. serialize np vals = Inr bs \<and> length bs = 4 * length vals \<and>
     (\<forall>i < length vals. \<exists>k. quantize np (vals ! i) = Inr k \<and>
         take 4 (drop (4 * i) bs) = [word_of_int (k div 2 ^ 24), word_of_int (k div 2 ^ 16),
                                      word_of_int (k div 2 ^ 8), word_of_int k] \<and>
         from_bytes (take 4 (drop (4 * i) bs)) = k)"
  using assms by (rule serialize_blocks)

theorem serialize_roundtrip_witness:
  "list_all (fits4 ideal_np) [1 / 4, 1 / 3]
   \<and> serialize ideal_np [1 / 4, 1 / 3] = Inr [14, 230, 178, 128, 19, 222, 67, 85]
   \<and> quantize ideal_np (1 / 3) = Inr 333333333
   \<and> from_bytes (take 4 (drop 4 [14, 230, 178, 128, 19, 222, 67, 85])) = 333333333"
proof -
  have f: "list_all (fits4 ideal_np) [1 / 4, 1 / 3]"
    by code_simp
  have s: "serialize ideal_np [1 / 4, 1 / 3] = Inr [14, 230, 178, 128, 19, 222, 67, 85]"
    by code_simp
  have q: "quantize ideal_np (1 / 3) = Inr 333333333"
    by code_simp
  from serialize_roundtrip [OF f] s q
  have "from_bytes (take 4 (drop (4 * 1) [14, 230, 178, 128, 19, 222, 67, 85])) = 333333333"
    by force
  with f s q show ?thesis by simp
qed

section \<open>Claims about \<^verbatim>\<open>hopfield_prng\<close>\<close>

text \<open>
  C6: each pass of the output loop perturbs the weight matrix once, before the
  activation loop and the extraction of that pass, which both read the perturbed matrix;
  after \<open>k\<close> outputs the matrix has been perturbed \<open>k\<close> times.  The perturbation keeps
  the shape and, where multiplying \<open>delta\<close> by 1 and by 0 and adding or subtracting 0
  are the identities they are on finite floats, adds \<open>delta\<close> to the entries with
  row \<open>\<le>\<close> column and subtracts \<open>delta\<close> from the entries with row \<open>>\<close> column.
\<close>

theorem perturb_once_per_output:
  assumes "length T = N" and "\<forall>row \<in> set T. length row = N"
    and "np_mul np delta (np_float np 1) = delta"
    and "np_mul np delta (np_float np 0) = np_float np 0"
    and "\<forall>x. np_sub np x (np_float np 0) = x"
    and "\<forall>row \<in> set T. \<forall>x \<in> set row. np_add np x (np_float np 0) = x"
  shows "(\<forall>i < N. \<forall>j < N. perturb np N delta T ! i ! j =
            (if i \<le> j then np_add np (T ! i ! j) delta else np_sub np (T ! i ! j) delta))
       \<and> length (perturb np N delta T) = N
       \<and> (\<forall>row \<in> set (perturb np N delta T). length row = N)
       \<and> hopfield_loop np N L b delta I (Suc k) (T, V, r, outs) =
           (case activation np N b (perturb np N delta T) I (nat L) (V, r) of
              Inl e \<Rightarrow> Inl e
            | Inr (V', r') \<Rightarrow>
                hopfield_loop np N L b delta I k
                  (perturb np N delta T, V', r',
                   outs @ [extract_sample np (perturb np N delta T) V' L N]))
       \<and> (\<forall>T' V' r' outs'.
            hopfield_loop np N L b delta I k (T, V, r, outs) = Inr (T', V', r', outs') \<longrightarrow>
              T' = (perturb np N delta ^^ k) T)"
proof -
  have entries: "\<forall>i < N. \<forall>j < N. perturb np N delta T ! i ! j =
            (if i \<le> j then np_add np (T ! i ! j) delta else np_sub np (T ! i ! j) delta)"
  proof (intro allI impI)
    fix i j assume ij: "i < N" "j < N"
    have "T ! i \<in> set T" using assms(1) ij(1) by simp
    moreover have "T ! i ! j \<in> set (T ! i)" using assms(1,2) ij by simp
    ultimately have z: "np_add np (T ! i ! j) (np_float np 0) = T ! i ! j"
      using assms(6) by blast
    show "perturb np N delta T ! i ! j =
            (if i \<le> j then np_add np (T ! i ! j) delta else np_sub np (T ! i ! j) delta)"
      using perturb_nth [OF assms(1,2) ij, of np delta] assms(3,4,5) z by auto
  qed
  have step: "hopfield_loop np N L b delta I (Suc k) (T, V, r, outs) =
           (case activation np N b (perturb np N delta T) I (nat L) (V, r) of
              Inl e \<Rightarrow> Inl e
            | Inr (V', r') \<Rightarrow>
                hopfield_loop np N L b delta I k
                  (perturb np N delta T, V', r',
                   outs @ [extract_sample np (perturb np N delta T) V' L N]))"
    by (simp add: Let_def)
  from entries perturb_square [OF assms(1,2), of np delta] step hopfield_loop_matrix [of np N L b delta I k T V r outs]
  show ?thesis by blast
qed

theorem perturb_once_per_output_witness:
  "perturb ideal_np 2 (1 / 100) [[1, 2], [3, 4]] = [[101 / 100, 201 / 100], [299 / 100, 401 / 100]]
   \<and> hopfield_loop ideal_np 2 1 (1 / 10) (1 / 100) [0, 0] 1 ([[1, 2], [3, 4]], [1 / 2, 1 / 4], 0, [])
       = Inr ([[101 / 100, 201 / 100], [299 / 100, 401 / 100]], [403 / 4403, 999 / 4999], 1,
              [7412195408707763 / 18775167459949538])"
proof -
  have p: "perturb ideal_np 2 (1 / 100) [[1, 2], [3, 4]] = [[101 / 100, 201 / 100], [299 / 100, 401 / 100]]"
    by code_simp
  have l: "hopfield_loop ideal_np 2 1 (1 / 10) (1 / 100) [0, 0] 1 ([[1, 2], [3, 4]], [1 / 2, 1 / 4], 0, [])
       = Inr ([[101 / 100, 201 / 100], [299 / 100, 401 / 100]], [403 / 4403, 999 / 4999], 1,
              [7412195408707763 / 18775167459949538])"
    by code_simp
  have "\<forall>T' V' r' outs'.
     hopfield_loop ideal_np 2 1 (1 / 10) (1 / 100) [0, 0] 1 ([[1, 2], [3, 4]], [1 / 2, 1 / 4], 0, [])
       = Inr (T', V', r', outs') \<longrightarrow> T' = (perturb ideal_np 2 (1 / 100) ^^ 1) [[1, 2], [3, 4]]"
    using perturb_once_per_output [where T = "[[1, 2], [3, 4]]" and N = 2 and np = ideal_np
        and delta = "1 / 100" and L = 1 and b = "1 / 10" and I = "[0, 0]" and k = 1
        and V = "[1 / 2, 1 / 4]" and r = 0 and outs = "[]"]
    by (simp add: ideal_np_def)
  with p l show ?thesis by simp
qed




text \<open>
  C8: one pass of the activation loop draws \<open>N div 2 + 1\<close> distinct indices (by the
  contract of \<^verbatim>\<open>np.random.choice\<close>), writes \<open>tanh (b * U[i])\<close> at exactly those
  indices, where \<open>U\<close> is the full product \<open>T V\<close> minus \<open>I\<close> computed from the state before
  the pass, and leaves every other entry of the state as it was.
\<close>

theorem activate_frame:
  assumes "choice_contract np" and "0 < N"
    and "length T = N" and "length V = N" and "length I = N"
  shows "\<exists>idx r' V'. np_choice np N (N div 2 + 1) r = (idx, r')
           \<and> length idx = N div 2 + 1 \<and> distinct idx \<and> card (set idx) = N div 2 + 1
           \<and> activate np N b T I (V, r) = Inr (V', r') \<and> length V' = N
           \<and> (\<forall>i \<in> set idx. i < N \<and>
                 V' ! i = np_tanh np (np_mul np b (np_sub np (np_dot np (T ! i) V) (I ! i))))
           \<and> (\<forall>i < N. i \<notin> set idx \<longrightarrow> V' ! i = V ! i)"
proof -
  obtain idx r' where c: "np_choice np N (N div 2 + 1) r = (idx, r')"
    by (cases "np_choice np N (N div 2 + 1) r")
  have k: "N div 2 + 1 \<le> N" using assms(2) by simp
  from assms(1,2) k c have idx: "length idx = N div 2 + 1" "distinct idx" "\<forall>i \<in> set idx. i < N"
    unfolding choice_contract_def by (metis fst_conv)+
  let ?U = "map2 (np_sub np) (matvec np T V) I"
  let ?V' = "assign_at V idx (map (\<lambda>i. np_tanh np (np_mul np b (?U ! i))) idx)"
  have lenU: "length ?U = N" using assms(3,5) by (simp add: matvec_def)
  have "\<not> list_ex (\<lambda>i. length ?U \<le> i) idx" using idx(3) lenU by (auto simp: list_ex_iff)
  then have a: "activate np N b T I (V, r) = Inr (?V', r')"
    using assms(2) k c by (simp add: activate_def random_choice_def Let_def)
  have written: "\<forall>i \<in> set idx. i < N \<and>
      ?V' ! i = np_tanh np (np_mul np b (np_sub np (np_dot np (T ! i) V) (I ! i)))"
  proof
    fix i assume i: "i \<in> set idx"
    then have iN: "i < N" using idx(3) by simp
    then have "?V' ! i = np_tanh np (np_mul np b (?U ! i))"
      using i assms(4) by (simp add: nth_assign_at_map)
    also have "?U ! i = np_sub np (np_dot np (T ! i) V) (I ! i)"
      using assms(3,5) iN by (rule nth_external_input)
    finally show "i < N \<and> ?V' ! i = np_tanh np (np_mul np b (np_sub np (np_dot np (T ! i) V) (I ! i)))"
      using iN by simp
  qed
  have kept: "\<forall>i < N. i \<notin> set idx \<longrightarrow> ?V' ! i = V ! i"
    using assms(4) by (simp add: nth_assign_at_map)
  have card: "card (set idx) = N div 2 + 1" using idx(1,2) by (simp add: distinct_card)
  show ?thesis
    apply (rule exI [of _ idx], rule exI [of _ r'], rule exI [of _ ?V'])
    using c idx(1,2) card a written kept assms(4) by (simp add: length_assign_at)
qed

theorem activate_frame_witness:
  "np_choice ideal_np 4 (4 div 2 + 1) 1 = ([1, 2, 3], 2)
   \<and> activate ideal_np 4 (1 / 10) [[1, 2, 0, - 1], [0, 1, 1, 0], [2, 0, 1, 0], [1, 1, 0, 1]]
         [0, 0, 0, 0] ([1 / 2, - 1 / 2, 1 / 4, 1], 1)
       = Inr ([1 / 2, - (1 / 41), 1 / 9, 1 / 11], 2)"
proof -
  have c: "np_choice ideal_np 4 (4 div 2 + 1) 1 = ([1, 2, 3], 2)"
    by code_simp
  have a: "activate ideal_np 4 (1 / 10) [[1, 2, 0, - 1], [0, 1, 1, 0], [2, 0, 1, 0], [1, 1, 0, 1]]
         [0, 0, 0, 0] ([1 / 2, - 1 / 2, 1 / 4, 1], 1)
       = Inr ([1 / 2, - (1 / 41), 1 / 9, 1 / 11], 2)"
    by code_simp
  from activate_frame [OF choice_contract_ideal, of 4 "[[1, 2, 0, - 1], [0, 1, 1, 0], [2, 0, 1, 0], [1, 1, 0, 1]]"
      "[1 / 2, - 1 / 2, 1 / 4, 1]" "[0, 0, 0, 0]" 1 "1 / 10"]
  have "\<exists>idx r' V'. np_choice ideal_np 4 (4 div 2 + 1) 1 = (idx, r')
      \<and> activate ideal_np 4 (1 / 10) [[1, 2, 0, - 1], [0, 1, 1, 0], [2, 0, 1, 0], [1, 1, 0, 1]]
         [0, 0, 0, 0] ([1 / 2, - 1 / 2, 1 / 4, 1], 1) = Inr (V', r')"
    by simp blast
  with c a show ?thesis by simp
qed




end
